theory Spec2Isabelle
  imports Main
begin

section \<open>Strings and errors\<close>

text \<open>
  A JavaScript string is modelled as a \<open>string\<close>: a list of code units, each below 256
  (the Latin-1 range, which contains every alphabetic word the index accepts).
  \<open>s.length\<close> is \<open>length s\<close>, \<open>s.charCodeAt(i)\<close> is \<open>of_char (s ! i)\<close>, and \<open>s[i]\<close>
  beyond the end is \<open>undefined\<close>, written \<open>None\<close> here. The only exception the modelled
  code can raise is a \<open>TypeError\<close> (a property read or a method call on \<open>undefined\<close>).
\<close>

datatype error = TypeError

definition charAt :: "string \<Rightarrow> nat \<Rightarrow> char option" where
  "charAt s i = (if i < length s then Some (s ! i) else None)"

section \<open>utils.js\<close>

definition lowerChar :: "char \<Rightarrow> char" where
  "lowerChar c =
     (let n = (of_char c :: nat)
      in if (65 \<le> n \<and> n \<le> 90) \<or> (192 \<le> n \<and> n \<le> 222 \<and> n \<noteq> 215)
         then char_of (n + 32) else c)"

definition toLowerCase :: "string \<Rightarrow> string" where
  "toLowerCase s = map lowerChar s"

text \<open>\<open>s.slice(start)\<close>: a negative start counts from the end, and both are clamped.\<close>

definition sliceFrom :: "string \<Rightarrow> int \<Rightarrow> string" where
  "sliceFrom s start =
     (let len = int (length s);
          from = (if start < 0 then max (len + start) 0 else min start len)
      in drop (nat from) s)"

definition extractSuffix :: "string \<Rightarrow> int \<Rightarrow> string" where
  "extractSuffix word len =
     (let word' = toLowerCase word; n = int (length word')
      in if n \<le> len then word' else sliceFrom word' (- len))"

definition vowels :: "char list" where
  "vowels = [CHR ''a'', CHR ''e'', CHR ''i'', CHR ''o'', CHR ''u'']"

function syllableLoop :: "string \<Rightarrow> nat \<Rightarrow> int \<Rightarrow> bool \<Rightarrow> int" where
  "syllableLoop word i syllables previousWasVowel =
     (if i < length word
      then (let c = word ! i;
                isVowel = (if c = CHR ''y'' then (i > 0 \<and> previousWasVowel = False)
                           else c \<in> set vowels)
            in syllableLoop word (i + 1)
                 (if isVowel \<and> \<not> previousWasVowel then syllables + 1 else syllables)
                 isVowel)
      else syllables)"
  by pat_completeness auto
termination
  by (relation "measure (\<lambda>(word, i, syllables, p). length word - i)") auto

definition countSyllables :: "string \<Rightarrow> int" where
  "countSyllables word0 =
     (let word = toLowerCase word0; n = length word
      in if n = 0 then 0
         else (let syllables = syllableLoop word 0 0 False;
                   syllables = (if n \<ge> 3 \<and> word ! (n - 1) = CHR ''e''
                                   \<and> word ! (n - 2) \<notin> set vowels
                                   \<and> word ! (n - 2) \<noteq> CHR ''y''
                                then syllables - 1 else syllables)
               in if syllables < 1 then 1 else syllables))"

text \<open>
  \<open>s.replaceAll(pat, rep)\<close> for a non-empty string pattern: the occurrences are found
  left to right and do not overlap. \<open>computePhoneticKey\<close> only passes the twelve
  non-empty literals below; the empty pattern (which JavaScript treats specially) is not
  modelled and leaves the string as it is.
\<close>

function replaceAll :: "string \<Rightarrow> string \<Rightarrow> string \<Rightarrow> string" where
  "replaceAll pat rep s =
     (if s = [] then []
      else if pat \<noteq> [] \<and> take (length pat) s = pat
           then rep @ replaceAll pat rep (drop (length pat) s)
           else hd s # replaceAll pat rep (tl s))"
  by pat_completeness auto
termination
  by (relation "measure (\<lambda>(pat, rep, s). length s)") (auto simp: Suc_le_eq)

function keyLoop :: "string \<Rightarrow> string" where
  "keyLoop [] = []"
| "keyLoop (c # rest) =
     (if c \<in> set vowels then CHR ''V'' # keyLoop (dropWhile (\<lambda>d. d \<in> set vowels) rest)
      else if c = CHR ''c''
           then (if charAt rest 0 \<in> {Some (CHR ''e''), Some (CHR ''i'')}
                 then CHR ''S'' else CHR ''K'') # keyLoop rest
           else c # keyLoop (dropWhile (\<lambda>d. d = c) rest))"
  by pat_completeness auto
termination
  by (relation "measure length") (auto simp: length_dropWhile_le less_Suc_eq_le)

definition computePhoneticKey :: "string \<Rightarrow> string" where
  "computePhoneticKey word0 =
     (let word = toLowerCase word0;
          word = replaceAll ''ough'' ''O'' word;
          word = replaceAll ''augh'' ''AF'' word;
          word = replaceAll ''tion'' ''SHUN'' word;
          word = replaceAll ''sion'' ''ZHUN'' word;
          word = replaceAll ''ph'' ''F'' word;
          word = replaceAll ''gh'' '''' word;
          word = replaceAll ''ck'' ''K'' word;
          word = replaceAll ''wh'' ''W'' word;
          word = replaceAll ''wr'' ''R'' word;
          word = replaceAll ''kn'' ''N'' word;
          word = replaceAll ''gn'' ''N'' word;
          word = replaceAll ''mb'' ''M'' word
      in keyLoop word)"

definition isLetter :: "char \<Rightarrow> bool" where
  "isLetter c =
     (let n = (of_char c :: nat) in (97 \<le> n \<and> n \<le> 122) \<or> (65 \<le> n \<and> n \<le> 90))"

definition isAlphabetic :: "string \<Rightarrow> bool" where
  "isAlphabetic word = (word \<noteq> [] \<and> list_all isLetter word)"

section \<open>rhymeScorer.js: scoreRhyme\<close>

function matchLoop :: "string \<Rightarrow> string \<Rightarrow> int \<Rightarrow> int \<Rightarrow> int \<Rightarrow> int" where
  "matchLoop word1 word2 i j matchingChars =
     (if i \<ge> 0 \<and> j \<ge> 0 \<and> word1 ! nat i = word2 ! nat j
      then matchLoop word1 word2 (i - 1) (j - 1) (matchingChars + 1)
      else matchingChars)"
  by pat_completeness auto
termination
  by (relation "measure (\<lambda>(word1, word2, i, j, m). nat (i + 1))") auto

definition scoreRhyme :: "string \<Rightarrow> string \<Rightarrow> int" where
  "scoreRhyme word1 word2 =
     (if word1 = word2 then 0
      else (let matchingChars =
                  matchLoop word1 word2 (int (length word1) - 1) (int (length word2) - 1) 0;
                charScore = matchingChars * 15;
                charScore = (if charScore > 60 then 60 else charScore);
                score = 0 + charScore;
                score = (if charAt word1 0 \<noteq> charAt word2 0 then score + 20 else score);
                lengthDiff = \<bar>int (length word1) - int (length word2)\<bar>
            in if lengthDiff = 0 then score + 20
               else if lengthDiff = 1 then score + 15
               else if lengthDiff = 2 then score + 10
               else if lengthDiff \<le> 4 then score + 5
               else score))"

section \<open>hashTable.js\<close>

text \<open>
  A bucket is \<open>null\<close> (\<open>None\<close>) or an entry with a suffix key and the words inserted under
  it. The table object keeps its capacity, the bucket array, the number of bound buckets
  and the probe-step counter. The constructor is \<open>create\<close>.
\<close>

record hash_entry =
  suffix :: string
  words :: "string list"

record hash_table =
  size_ht :: nat
  table :: "hash_entry option list"
  count :: nat
  probeSteps :: nat

definition create :: "nat \<Rightarrow> hash_table" where
  "create n = \<lparr>size_ht = n, table = replicate n None, count = 0, probeSteps = 0\<rparr>"

text \<open>
  The rolling hash. For \<open>tableSize = 0\<close> JavaScript computes \<open>NaN\<close>; both callers then skip
  their loop (\<open>attempts < 0\<close> is false) and never look at the value.
\<close>

definition computeHash :: "string \<Rightarrow> nat \<Rightarrow> nat" where
  "computeHash string tableSize =
     foldl (\<lambda>hash c. (hash * 31 + of_char c) mod tableSize) 0 string"

text \<open>
  The probe loops. Reading a bucket beyond the array gives \<open>undefined\<close>, which is not
  \<open>null\<close>, so the next test reads \<open>.suffix\<close> of \<open>undefined\<close> and throws.
\<close>

function insertLoop ::
  "hash_table \<Rightarrow> string \<Rightarrow> string \<Rightarrow> nat \<Rightarrow> nat \<Rightarrow> error + (bool \<times> hash_table)" where
  "insertLoop T sfx word index attempts =
     (if attempts < size_ht T
      then (if index < length (table T)
            then (case table T ! index of
                    None \<Rightarrow>
                      Inr (True, T\<lparr>table := (table T)[index := Some \<lparr>suffix = sfx, words = [word]\<rparr>],
                                   count := count T + 1\<rparr>)
                  | Some e \<Rightarrow>
                      if suffix e = sfx
                      then Inr (True, T\<lparr>table := (table T)[index := Some (e\<lparr>words := words e @ [word]\<rparr>)]\<rparr>)
                      else insertLoop T sfx word ((index + 1) mod size_ht T) (attempts + 1))
            else Inl TypeError)
      else Inr (False, T))"
  by pat_completeness auto
termination
  by (relation "measure (\<lambda>(T, sfx, word, index, attempts). size_ht T - attempts)") auto

definition insertHash :: "hash_table \<Rightarrow> string \<Rightarrow> string \<Rightarrow> error + (bool \<times> hash_table)" where
  "insertHash T sfx word = insertLoop T sfx word (computeHash sfx (size_ht T)) 0"

function searchLoop ::
  "hash_table \<Rightarrow> string \<Rightarrow> nat \<Rightarrow> nat \<Rightarrow> error + (string list \<times> hash_table)" where
  "searchLoop T sfx index attempts =
     (if attempts < size_ht T
      then (if index < length (table T)
            then (case table T ! index of
                    None \<Rightarrow> Inr ([], T)
                  | Some e \<Rightarrow>
                      if suffix e = sfx then Inr (words e, T)
                      else searchLoop (T\<lparr>probeSteps := probeSteps T + 1\<rparr>) sfx
                             ((index + 1) mod size_ht T) (attempts + 1))
            else Inl TypeError)
      else Inr ([], T))"
  by pat_completeness auto
termination
  by (relation "measure (\<lambda>(T, sfx, index, attempts). size_ht T - attempts)") auto

definition searchHash :: "hash_table \<Rightarrow> string \<Rightarrow> error + (string list \<times> hash_table)" where
  "searchHash T sfx = searchLoop T sfx (computeHash sfx (size_ht T)) 0"

text \<open>
  The table states the program can reach: a fresh table, then any sequence of
  \<open>insertHash\<close> calls (a call that reports a full table leaves the table as it was).
\<close>

fun insertMany :: "hash_table \<Rightarrow> (string \<times> string) list \<Rightarrow> error + hash_table" where
  "insertMany T [] = Inr T"
| "insertMany T ((sfx, word) # rest) =
     (case insertHash T sfx word of
        Inl e \<Rightarrow> Inl e
      | Inr (ok, T') \<Rightarrow> insertMany T' rest)"

section \<open>allliteration.js\<close>

text \<open>
  The alliteration table is an array of word lists. \<open>findAlliterationReads\<close> computes the
  result together with the list of indices at which the call reads the array, in order;
  \<open>findAlliteration\<close> is its result. The index is \<open>None\<close> when JavaScript computes \<open>NaN\<close>
  (the letter is the empty string), and a read that finds no entry gives \<open>undefined\<close>.
\<close>

definition findAlliterationReads ::
  "string list list \<Rightarrow> string \<Rightarrow> int \<Rightarrow> string list \<times> int option list" where
  "findAlliterationReads AlliterationTable letter0 maxResults =
     (let letter = toLowerCase letter0;
          index = (case charAt letter 0 of
                     None \<Rightarrow> None
                   | Some c \<Rightarrow> Some (int (of_char c) - int (of_char (CHR ''a''))))
      in if (case index of None \<Rightarrow> False | Some i \<Rightarrow> i < 0 \<or> i > 25) then ([], [])
         else (let entry = (case index of
                              None \<Rightarrow> None
                            | Some i \<Rightarrow> if nat i < length AlliterationTable
                                        then Some (AlliterationTable ! nat i) else None)
               in case entry of
                    None \<Rightarrow> ([], [index])
                  | Some wordList \<Rightarrow>
                      if length wordList = 0 then ([], [index, index])
                      else (let limit = min maxResults (int (length wordList))
                            in (take (nat limit) wordList, [index, index, index]))))"

definition findAlliteration :: "string list list \<Rightarrow> string \<Rightarrow> int \<Rightarrow> string list" where
  "findAlliteration AlliterationTable letter maxResults =
     fst (findAlliterationReads AlliterationTable letter maxResults)"

section \<open>buildAssistant.js\<close>

text \<open>
  The statistics object without its load factor (a floating-point quotient), the
  object that \<open>buildPoetryAssistant\<close> returns, and the state of its loop. The field
  \<open>insertResults\<close> of the loop state is not a variable of the program: it lists the values
  returned by the \<open>insertHash\<close> calls of the loop, in order, which the program discards.
  The \<open>console.log\<close> lines are left out.
\<close>

record stats =
  wordCount :: nat
  rhymeTableCount :: nat
  rhymeTableProbeSteps :: nat
  phoneticTableCount :: nat
  phoneticTableProbeSteps :: nat

record assistant =
  rhymeTable :: hash_table
  phoneticTable :: hash_table
  alliterationTable :: "string list list"
  stats :: stats

record build_state =
  rhymeTable_b :: hash_table
  phoneticTable_b :: hash_table
  alliterationTable_b :: "string list list"
  wordCount_b :: nat
  insertResults :: "bool list"

definition newline :: char where
  "newline = CHR 0x0A"

text \<open>\<open>text.split("\n")\<close>: the pieces between the newlines, at least one piece.\<close>

fun splitLines :: "string \<Rightarrow> string list" where
  "splitLines [] = [[]]"
| "splitLines (c # cs) =
     (if c = newline then [] # splitLines cs
      else (case splitLines cs of
              [] \<Rightarrow> [[c]]
            | l # ls \<Rightarrow> (c # l) # ls))"

definition isWhiteSpace :: "char \<Rightarrow> bool" where
  "isWhiteSpace c = ((of_char c :: nat) \<in> {9, 10, 11, 12, 13, 32, 160})"

definition trim :: "string \<Rightarrow> string" where
  "trim s = rev (dropWhile isWhiteSpace (rev (dropWhile isWhiteSpace s)))"

definition tableSize :: nat where
  "tableSize = 6577"

fun buildLoop :: "build_state \<Rightarrow> int \<Rightarrow> string list \<Rightarrow> error + build_state" where
  "buildLoop st suffixLength [] = Inr st"
| "buildLoop st suffixLength (line # rest) =
     (if line = [] then buildLoop st suffixLength rest
      else (let w = trim line
            in if length w > 0 \<and> isAlphabetic w
               then (case insertHash (rhymeTable_b st) (extractSuffix w suffixLength) w of
                       Inl e \<Rightarrow> Inl e
                     | Inr (ok1, rt) \<Rightarrow>
                        (let firstLetter = toLowerCase [w ! 0];
                             letterIndex = int (of_char (firstLetter ! 0)) - int (of_char (CHR ''a''));
                             at = alliterationTable_b st
                         in if 0 \<le> letterIndex \<and> nat letterIndex < length at
                            then (let at' = at[nat letterIndex := at ! nat letterIndex @ [w]];
                                      phoneticKey = computePhoneticKey w;
                                      phoneticSuffix = extractSuffix phoneticKey suffixLength
                                  in case insertHash (phoneticTable_b st) phoneticSuffix w of
                                       Inl e \<Rightarrow> Inl e
                                     | Inr (ok2, pt) \<Rightarrow>
                                         buildLoop
                                           \<lparr>rhymeTable_b = rt, phoneticTable_b = pt,
                                            alliterationTable_b = at',
                                            wordCount_b = wordCount_b st + 1,
                                            insertResults = insertResults st @ [ok1, ok2]\<rparr>
                                           suffixLength rest)
                            else Inl TypeError))
               else buildLoop st suffixLength rest))"

definition buildStart :: build_state where
  "buildStart =
     \<lparr>rhymeTable_b = create tableSize, phoneticTable_b = create tableSize,
      alliterationTable_b = replicate 26 [], wordCount_b = 0, insertResults = []\<rparr>"

definition buildRun :: "string \<Rightarrow> int \<Rightarrow> error + build_state" where
  "buildRun wordlistText suffixLength = buildLoop buildStart suffixLength (splitLines wordlistText)"

definition buildPoetryAssistant :: "string \<Rightarrow> int \<Rightarrow> error + assistant" where
  "buildPoetryAssistant wordlistText suffixLength =
     (case buildRun wordlistText suffixLength of
        Inl e \<Rightarrow> Inl e
      | Inr st \<Rightarrow>
          Inr \<lparr>rhymeTable = rhymeTable_b st, phoneticTable = phoneticTable_b st,
               alliterationTable = alliterationTable_b st,
               stats = \<lparr>wordCount = wordCount_b st,
                        rhymeTableCount = count (rhymeTable_b st),
                        rhymeTableProbeSteps = probeSteps (rhymeTable_b st),
                        phoneticTableCount = count (phoneticTable_b st),
                        phoneticTableProbeSteps = probeSteps (phoneticTable_b st)\<rparr>\<rparr>)"

text \<open>The values returned by the \<open>insertHash\<close> calls of one build, in order.\<close>

definition buildInsertResults :: "string \<Rightarrow> int \<Rightarrow> bool list" where
  "buildInsertResults wordlistText suffixLength =
     (case buildRun wordlistText suffixLength of Inl e \<Rightarrow> [] | Inr st \<Rightarrow> insertResults st)"

section \<open>rhymeScorer.js: findRhymes and phoneticSearch\<close>

text \<open>
  \<open>Array.prototype.sort\<close> is stable, and so is \<open>sort_key\<close>: sorting by the negated score
  puts the best score first and keeps candidates of equal score in retrieval order.
\<close>

record scored_rhyme =
  word :: string
  score :: int

fun scoreCandidates :: "string \<Rightarrow> string list \<Rightarrow> scored_rhyme list" where
  "scoreCandidates inputWord [] = []"
| "scoreCandidates inputWord (candidateWord # rest) =
     (let sc = scoreRhyme inputWord candidateWord
      in if sc > 0 then \<lparr>word = candidateWord, score = sc\<rparr> # scoreCandidates inputWord rest
         else scoreCandidates inputWord rest)"

definition rankCandidates :: "string \<Rightarrow> string list \<Rightarrow> int \<Rightarrow> string list" where
  "rankCandidates inputWord candidates maxResults =
     (let scoredRhymes = sort_key (\<lambda>r. - score r) (scoreCandidates inputWord candidates);
          limit = min maxResults (int (length scoredRhymes))
      in map word (take (nat limit) scoredRhymes))"

definition findRhymes ::
  "hash_table \<Rightarrow> string \<Rightarrow> int \<Rightarrow> int \<Rightarrow> error + (string list \<times> hash_table)" where
  "findRhymes T inputWord suffixLength maxResults =
     (case searchHash T (extractSuffix inputWord suffixLength) of
        Inl e \<Rightarrow> Inl e
      | Inr (candidates, T') \<Rightarrow> Inr (rankCandidates inputWord candidates maxResults, T'))"

definition phoneticSearch ::
  "hash_table \<Rightarrow> string \<Rightarrow> int \<Rightarrow> int \<Rightarrow> error + (string list \<times> hash_table)" where
  "phoneticSearch T inputWord suffixLength maxResults =
     (case searchHash T (extractSuffix (computePhoneticKey inputWord) suffixLength) of
        Inl e \<Rightarrow> Inl e
      | Inr (candidates, T') \<Rightarrow> Inr (rankCandidates inputWord candidates maxResults, T'))"

section \<open>index.js\<close>

text \<open>
  \<open>query\<close> returns its result object; the model adds the tables as the searches leave
  them, and a flag that says whether the call reached \<open>phoneticSearch\<close>. Reading
  \<open>inputWord[0]\<close> of the empty word gives \<open>undefined\<close>, on which \<open>findAlliteration\<close> calls
  \<open>toLowerCase\<close> and throws.
\<close>

record query_result =
  rhymes :: "string list"
  syllables :: int
  alliterations :: "string list"

record query_run =
  result :: query_result
  tablesAfter :: assistant
  phoneticSearchCalled :: bool

fun mergePhonetic :: "string list \<Rightarrow> string list \<Rightarrow> string list" where
  "mergePhonetic rs [] = rs"
| "mergePhonetic rs (p # ps) = mergePhonetic (if p \<in> set rs then rs else rs @ [p]) ps"

definition query :: "assistant \<Rightarrow> string \<Rightarrow> int \<Rightarrow> error + query_run" where
  "query tables inputWord suffixLength =
     (case findRhymes (rhymeTable tables) inputWord suffixLength 10 of
        Inl e \<Rightarrow> Inl e
      | Inr (rs, rt) \<Rightarrow>
          (let syl = countSyllables inputWord
           in case charAt inputWord 0 of
                None \<Rightarrow> Inl TypeError
              | Some firstLetter \<Rightarrow>
                  (let al = findAlliteration (alliterationTable tables) [firstLetter] 5
                   in if length rs < 3
                      then (case phoneticSearch (phoneticTable tables) inputWord suffixLength 7 of
                              Inl e \<Rightarrow> Inl e
                            | Inr (phoneticRhymes, pt) \<Rightarrow>
                                Inr \<lparr>result = \<lparr>rhymes = mergePhonetic rs phoneticRhymes,
                                               syllables = syl, alliterations = al\<rparr>,
                                     tablesAfter = tables\<lparr>rhymeTable := rt, phoneticTable := pt\<rparr>,
                                     phoneticSearchCalled = True\<rparr>)
                      else Inr \<lparr>result = \<lparr>rhymes = rs, syllables = syl, alliterations = al\<rparr>,
                                tablesAfter = tables\<lparr>rhymeTable := rt\<rparr>,
                                phoneticSearchCalled = False\<rparr>)))"

section \<open>Predicates used in the proofs\<close>

text \<open>
  A table is well formed when its bucket array has the length its \<open>size\<close> field says.
  \<open>keyAt\<close> reads the key of a bucket. \<open>blocked T k h d\<close> says that the first \<open>d\<close> buckets of
  the probe sequence that starts at \<open>h\<close> are all bound to keys other than \<open>k\<close>, and
  \<open>placed T k w p T'\<close> that \<open>T'\<close> is \<open>T\<close> after \<open>insertHash\<close> has put \<open>w\<close> under \<open>k\<close> into
  bucket \<open>p\<close>. \<open>probeInv\<close> is the invariant of linear probing without deletion: every
  bound bucket is reached from the hash of its key through buckets bound to other keys.
\<close>

definition wellFormed :: "hash_table \<Rightarrow> bool" where
  "wellFormed T \<longleftrightarrow> length (table T) = size_ht T"

definition keyAt :: "hash_table \<Rightarrow> nat \<Rightarrow> string option" where
  "keyAt T i = map_option suffix (table T ! i)"

definition blocked :: "hash_table \<Rightarrow> string \<Rightarrow> nat \<Rightarrow> nat \<Rightarrow> bool" where
  "blocked T k h d \<longleftrightarrow> (\<forall>d'<d. \<exists>k'. keyAt T ((h + d') mod size_ht T) = Some k' \<and> k' \<noteq> k)"

definition placed :: "hash_table \<Rightarrow> string \<Rightarrow> string \<Rightarrow> nat \<Rightarrow> hash_table \<Rightarrow> bool" where
  "placed T k w p T' \<longleftrightarrow> p < size_ht T \<and>
     ((table T ! p = None \<and>
       T' = T\<lparr>table := (table T)[p := Some \<lparr>suffix = k, words = [w]\<rparr>], count := count T + 1\<rparr>)
      \<or> (\<exists>e. table T ! p = Some e \<and> suffix e = k \<and>
           T' = T\<lparr>table := (table T)[p := Some (e\<lparr>words := words e @ [w]\<rparr>)]\<rparr>))"

definition probeInv :: "hash_table \<Rightarrow> bool" where
  "probeInv T \<longleftrightarrow> wellFormed T \<and>
     (\<forall>i<size_ht T. \<forall>k. keyAt T i = Some k \<longrightarrow>
        (\<exists>d<size_ht T. i = (computeHash k (size_ht T) + d) mod size_ht T
                      \<and> blocked T k (computeHash k (size_ht T)) d))"

text \<open>
  \<open>keysOf\<close> is the set of keys bound in a table. \<open>acceptedLine\<close> is the test under which
  the build loop processes a line (the line is not empty, and trimmed it is a non-empty
  alphabetic word), and \<open>buildInv\<close> says that the loop state holds two well-formed tables
  and 26 alliteration lists.
\<close>

definition keysOf :: "hash_table \<Rightarrow> string set" where
  "keysOf T = {k. \<exists>i<size_ht T. keyAt T i = Some k}"

definition acceptedLine :: "string \<Rightarrow> bool" where
  "acceptedLine line = (line \<noteq> [] \<and> length (trim line) > 0 \<and> isAlphabetic (trim line))"

definition buildInv :: "build_state \<Rightarrow> bool" where
  "buildInv st \<longleftrightarrow> wellFormed (rhymeTable_b st) \<and> wellFormed (phoneticTable_b st)
                   \<and> length (alliterationTable_b st) = 26"

section \<open>Example data\<close>

text \<open>
  An assistant with tables of capacity 7 that hold the words light, night, fight and
  sing under their suffixes of length 3, bucket by bucket as the build loop fills two
  fresh tables of that capacity.
\<close>

definition exampleTables :: assistant where
  "exampleTables =
     \<lparr>rhymeTable =
        \<lparr>size_ht = 7,
         table = [None, None, None, None,
                  Some \<lparr>suffix = ''ght'', words = [''light'', ''night'', ''fight'']\<rparr>,
                  None, Some \<lparr>suffix = ''ing'', words = [''sing'']\<rparr>],
         count = 2, probeSteps = 0\<rparr>,
      phoneticTable =
        \<lparr>size_ht = 7,
         table = [Some \<lparr>suffix = ''lvt'', words = [''light'']\<rparr>, None,
                  Some \<lparr>suffix = ''fvt'', words = [''fight'']\<rparr>, None,
                  Some \<lparr>suffix = ''nvt'', words = [''night'']\<rparr>,
                  Some \<lparr>suffix = ''vng'', words = [''sing'']\<rparr>, None],
         count = 4, probeSteps = 0\<rparr>,
      alliterationTable =
        [[], [], [], [], [], [''fight''], [], [], [], [], [], [''light''], [], [''night''],
         [], [], [], [], [''sing''], [], [], [], [], [], [], []],
      stats = \<lparr>wordCount = 4, rhymeTableCount = 2, rhymeTableProbeSteps = 0,
               phoneticTableCount = 4, phoneticTableProbeSteps = 0\<rparr>\<rparr>"

text \<open>
  A word list with more different suffixes than the tables have buckets: the 17576 words
  of three lower-case letters, one per line.
\<close>

definition alphabet :: string where
  "alphabet = ''abcdefghijklmnopqrstuvwxyz''"

definition threeLetterWords :: "string list" where
  "threeLetterWords = List.n_lists 3 alphabet"

definition threeLetterText :: string where
  "threeLetterText = concat (map (\<lambda>w. w @ [newline]) threeLetterWords)"

text \<open>
  The rhyme table that the build makes of the one-word list "a": the key "a" hashes to
  bucket 97 of the 6577.
\<close>

definition tableA :: hash_table where
  "tableA = \<lparr>size_ht = tableSize,
             table = (replicate tableSize None)[97 := Some \<lparr>suffix = ''a'', words = [''a'']\<rparr>],
             count = 1, probeSteps = 0\<rparr>"

section \<open>Properties of the hash table\<close>

declare insertLoop.simps [simp del] searchLoop.simps [simp del]

lemma blocked_Suc:
  "blocked T k h d \<Longrightarrow> keyAt T ((h + d) mod size_ht T) = Some k' \<Longrightarrow> k' \<noteq> k
   \<Longrightarrow> blocked T k h (Suc d)"
  by (auto simp: blocked_def less_Suc_eq)

lemma insertLoop_spec:
  assumes "wellFormed T" "a \<le> size_ht T" "blocked T k h a" "index = (h + a) mod size_ht T"
  shows "(insertLoop T k w index a = Inr (False, T) \<and> blocked T k h (size_ht T))
       \<or> (\<exists>d T'. a \<le> d \<and> d < size_ht T \<and> blocked T k h d
             \<and> placed T k w ((h + d) mod size_ht T) T'
             \<and> insertLoop T k w index a = Inr (True, T'))"
  using assms
proof (induction T k w index a rule: insertLoop.induct)
  case (1 T sfx wd index attempts)
  show ?case
  proof (cases "attempts < size_ht T")
    case False
    with 1 have "attempts = size_ht T" by simp
    then show ?thesis using 1 by (subst insertLoop.simps) simp
  next
    case lt: True
    then have idx: "index < length (table T)" using 1 by (simp add: wellFormed_def)
    have idx': "index < size_ht T" using 1 lt by simp
    show ?thesis
    proof (cases "table T ! index")
      case None
      have "placed T sfx wd ((h + attempts) mod size_ht T) 
              (T\<lparr>table := (table T)[index := Some \<lparr>suffix = sfx, words = [wd]\<rparr>], count := count T + 1\<rparr>)"
        using None idx' 1(5) by (simp add: placed_def)
      moreover have "insertLoop T sfx wd index attempts = Inr (True, T\<lparr>table := (table T)[index := Some \<lparr>suffix = sfx, words = [wd]\<rparr>], count := count T + 1\<rparr>)"
        using None lt idx by (subst insertLoop.simps) simp
      ultimately show ?thesis using lt 1(4) by blast
    next
      case (Some e)
      show ?thesis
      proof (cases "suffix e = sfx")
        case True
        have "placed T sfx wd ((h + attempts) mod size_ht T) 
              (T\<lparr>table := (table T)[index := Some (e\<lparr>words := words e @ [wd]\<rparr>)]\<rparr>)"
          using Some True idx' 1(5) by (simp add: placed_def)
        moreover have "insertLoop T sfx wd index attempts = Inr (True, T\<lparr>table := (table T)[index := Some (e\<lparr>words := words e @ [wd]\<rparr>)]\<rparr>)"
          using Some True lt idx by (subst insertLoop.simps) simp
        ultimately show ?thesis using lt 1(4) by blast
      next
        case False
        have b: "blocked T sfx h (attempts + 1)"
          using blocked_Suc[OF 1(4), of "suffix e"] Some False 1(5) by (simp add: keyAt_def)
        have i: "(index + 1) mod size_ht T = (h + (attempts + 1)) mod size_ht T"
          using 1(5) by (simp add: mod_Suc_eq)
        have step: "insertLoop T sfx wd index attempts
                    = insertLoop T sfx wd ((index + 1) mod size_ht T) (attempts + 1)"
          using Some False lt idx by (subst insertLoop.simps) simp
        from "1.IH"[OF lt idx Some False 1(2) _ b i] lt
        have "(insertLoop T sfx wd ((index + 1) mod size_ht T) (attempts + 1) = Inr (False, T) \<and> blocked T sfx h (size_ht T))
       \<or> (\<exists>d T'. attempts + 1 \<le> d \<and> d < size_ht T \<and> blocked T sfx h d
             \<and> placed T sfx wd ((h + d) mod size_ht T) T'
             \<and> insertLoop T sfx wd ((index + 1) mod size_ht T) (attempts + 1) = Inr (True, T'))" by simp
        then show ?thesis unfolding step by (metis Suc_eq_plus1 Suc_leD)
      qed
    qed
  qed
qed

lemma computeHash_snoc:
  "computeHash (s @ [c]) n = (computeHash s n * 31 + of_char c) mod n"
  by (simp add: computeHash_def)

lemma computeHash_lt: "0 < n \<Longrightarrow> computeHash s n < n"
  by (cases s rule: rev_cases) (simp_all add: computeHash_def)

lemma computeHash_mod: "(computeHash s n + 0) mod n = computeHash s n"
  by (cases "n = 0") (simp_all add: computeHash_lt)

lemma insertHash_spec:
  assumes "wellFormed T"
  shows "(insertHash T k w = Inr (False, T) \<and> blocked T k (computeHash k (size_ht T)) (size_ht T))
       \<or> (\<exists>d T'. d < size_ht T \<and> blocked T k (computeHash k (size_ht T)) d
             \<and> placed T k w ((computeHash k (size_ht T) + d) mod size_ht T) T'
             \<and> insertHash T k w = Inr (True, T'))"
proof -
  have "blocked T k (computeHash k (size_ht T)) 0" by (simp add: blocked_def)
  from insertLoop_spec[OF assms _ this, of "computeHash k (size_ht T)" w]
  show ?thesis unfolding insertHash_def using computeHash_mod[of k "size_ht T"] by auto
qed

lemma placed_frame:
  assumes "placed T k w p T'"
  shows "size_ht T' = size_ht T" "length (table T') = length (table T)"
        "probeSteps T' = probeSteps T"
  using assms by (auto simp: placed_def)

lemma placed_wf: "placed T k w p T' \<Longrightarrow> wellFormed T \<Longrightarrow> wellFormed T'"
  by (auto simp: placed_def wellFormed_def)

lemma placed_keyAt_old:
  assumes "placed T k w p T'" "keyAt T q \<noteq> None"
  shows "keyAt T' q = keyAt T q"
proof (cases "q = p")
  case True
  then show ?thesis using assms
    by (cases "p < length (table T)") (auto simp: placed_def keyAt_def list_update_beyond)
next
  case False
  then show ?thesis using assms by (auto simp: placed_def keyAt_def)
qed

lemma placed_keyAt_new:
  assumes "placed T k w p T'" "wellFormed T" "keyAt T q = None" "keyAt T' q = Some k'"
  shows "q = p \<and> k' = k"
proof (cases "q = p")
  case True
  then show ?thesis using assms by (auto simp: placed_def keyAt_def wellFormed_def)
next
  case False
  then show ?thesis using assms by (auto simp: placed_def keyAt_def)
qed

lemma placed_entry:
  assumes "placed T k w p T'" "wellFormed T"
  shows "\<exists>e. table T' ! p = Some e \<and> suffix e = k \<and> w \<in> set (words e)"
  using assms by (auto simp: placed_def wellFormed_def)

lemma blocked_mono:
  assumes "blocked T k h d" "size_ht T' = size_ht T"
    "\<And>q. keyAt T q \<noteq> None \<Longrightarrow> keyAt T' q = keyAt T q"
  shows "blocked T' k h d"
  unfolding blocked_def
proof (intro allI impI)
  fix d' assume "d' < d"
  with assms(1) obtain k' where k': "keyAt T ((h + d') mod size_ht T) = Some k'" "k' \<noteq> k"
    by (auto simp: blocked_def)
  then have "keyAt T' ((h + d') mod size_ht T) = Some k'" using assms(3) by simp
  then show "\<exists>k'. keyAt T' ((h + d') mod size_ht T') = Some k' \<and> k' \<noteq> k"
    using k' assms(2) by simp
qed

lemma placed_blocked:
  "placed T k w p T' \<Longrightarrow> blocked T k1 h d \<Longrightarrow> blocked T' k1 h d"
  using blocked_mono[of T k1 h d T'] placed_frame(1)[of T k w p T'] placed_keyAt_old[of T k w p T']
  by blast

lemma probeInv_create: "probeInv (create n)"
  by (simp add: probeInv_def wellFormed_def create_def keyAt_def)

lemma probeInv_placed:
  assumes inv: "probeInv T" and pl: "placed T k w ((computeHash k (size_ht T) + d) mod size_ht T) T'"
    and d: "d < size_ht T" and bl: "blocked T k (computeHash k (size_ht T)) d"
  shows "probeInv T'"
  unfolding probeInv_def
proof (intro conjI allI impI)
  have wfT: "wellFormed T" using inv by (simp add: probeInv_def)
  show "wellFormed T'" using pl wfT by (rule placed_wf)
  fix i k1 assume i: "i < size_ht T'" and key: "keyAt T' i = Some k1"
  have sz: "size_ht T' = size_ht T" using pl by (rule placed_frame)
  show "\<exists>d<size_ht T'. i = (computeHash k1 (size_ht T') + d) mod size_ht T'
                      \<and> blocked T' k1 (computeHash k1 (size_ht T')) d"
  proof (cases "keyAt T i")
    case None
    from placed_keyAt_new[OF pl wfT None key]
    have "i = (computeHash k (size_ht T) + d) mod size_ht T" "k1 = k" by simp_all
    then show ?thesis using d placed_blocked[OF pl bl] sz by auto
  next
    case (Some k0)
    then have "keyAt T i = Some k1" using placed_keyAt_old[OF pl, of i] key by simp
    with inv i sz obtain d1 where "d1 < size_ht T"
        "i = (computeHash k1 (size_ht T) + d1) mod size_ht T"
        "blocked T k1 (computeHash k1 (size_ht T)) d1"
      by (auto simp: probeInv_def)
    then show ?thesis using placed_blocked[OF pl] sz by auto
  qed
qed

lemma probeInv_insertHash:
  assumes "probeInv T" "insertHash T k w = Inr (ok, T')"
  shows "probeInv T'"
proof -
  have "wellFormed T" using assms(1) by (simp add: probeInv_def)
  from insertHash_spec[OF this, of k w] assms show ?thesis
    by (auto intro: probeInv_placed)
qed

lemma insertHash_total:
  assumes "wellFormed T"
  shows "\<exists>ok T'. insertHash T k w = Inr (ok, T')"
  using insertHash_spec[OF assms, of k w] by auto

lemma probeInv_insertMany:
  "probeInv T \<Longrightarrow> insertMany T ops = Inr T' \<Longrightarrow> probeInv T'"
proof (induction ops arbitrary: T)
  case Nil
  then show ?case by simp
next
  case (Cons a ops)
  obtain k w where a: "a = (k, w)" by (cases a)
  from Cons.prems(2) obtain ok T1 where s: "insertHash T k w = Inr (ok, T1)" "insertMany T1 ops = Inr T'"
    by (auto simp: a split: sum.splits)
  from probeInv_insertHash[OF Cons.prems(1) s(1)] Cons.IH s(2) show ?case by blast
qed

lemma probeInv_unique:
  assumes "probeInv T" "i < size_ht T" "j < size_ht T" "keyAt T i = Some k" "keyAt T j = Some k"
  shows "i = j"
proof -
  let ?h = "computeHash k (size_ht T)"
  from assms obtain di where di: "i = (?h + di) mod size_ht T" "blocked T k ?h di"
    by (auto simp: probeInv_def)
  from assms obtain dj where dj: "j = (?h + dj) mod size_ht T" "blocked T k ?h dj"
    by (auto simp: probeInv_def)
  have "\<not> di < dj" using dj(2) di(1) assms(4) by (auto simp: blocked_def)
  moreover have "\<not> dj < di" using di(2) dj(1) assms(5) by (auto simp: blocked_def)
  ultimately show ?thesis using di(1) dj(1) by simp
qed

lemma blocked_probeSteps [simp]: "blocked (T\<lparr>probeSteps := x\<rparr>) k h d = blocked T k h d"
  by (simp add: blocked_def keyAt_def)

lemma wellFormed_probeSteps [simp]: "wellFormed (T\<lparr>probeSteps := x\<rparr>) = wellFormed T"
  by (simp add: wellFormed_def)

lemma searchLoop_found:
  assumes "wellFormed T" "a \<le> d" "d < size_ht T" "blocked T k h d"
    "table T ! ((h + d) mod size_ht T) = Some e" "suffix e = k"
    "index = (h + a) mod size_ht T"
  shows "searchLoop T k index a = Inr (words e, T\<lparr>probeSteps := probeSteps T + (d - a)\<rparr>)"
  using assms
proof (induction T k index a rule: searchLoop.induct)
  case (1 T sfx index attempts)
  have lt: "attempts < size_ht T" using 1 by simp
  have idx: "index < length (table T)" using 1 lt by (simp add: wellFormed_def)
  show ?case
  proof (cases "attempts = d")
    case True
    then show ?thesis using 1 lt idx by (subst searchLoop.simps) simp
  next
    case False
    then have ad: "attempts < d" using 1 by simp
    with 1(5) obtain k' where k': "keyAt T index = Some k'" "k' \<noteq> sfx"
      unfolding blocked_def using 1(8) by blast
    then obtain e' where e': "table T ! index = Some e'" "suffix e' \<noteq> sfx"
      by (auto simp: keyAt_def)
    have i: "(index + 1) mod size_ht (T\<lparr>probeSteps := probeSteps T + 1\<rparr>)
              = (h + (attempts + 1)) mod size_ht (T\<lparr>probeSteps := probeSteps T + 1\<rparr>)"
      using 1(8) by (simp add: mod_Suc_eq)
    have step: "searchLoop T sfx index attempts
          = searchLoop (T\<lparr>probeSteps := probeSteps T + 1\<rparr>) sfx ((index + 1) mod size_ht T) (attempts + 1)"
      using e' lt idx by (subst searchLoop.simps) simp
    have "searchLoop (T\<lparr>probeSteps := probeSteps T + 1\<rparr>) sfx ((index + 1) mod size_ht T) (attempts + 1)
          = Inr (words e, T\<lparr>probeSteps := probeSteps T + 1\<rparr>\<lparr>probeSteps := probeSteps (T\<lparr>probeSteps := probeSteps T + 1\<rparr>) + (d - (attempts + 1))\<rparr>)"
      using "1.IH"[OF lt idx e'(1) e'(2)] 1(2,4,5,6,7) ad i by simp
    then show ?thesis unfolding step using ad by simp
  qed
qed

lemma searchLoop_frame:
  "searchLoop T k index a = Inr (ws, T')
   \<Longrightarrow> T' = T\<lparr>probeSteps := probeSteps T'\<rparr> \<and> probeSteps T \<le> probeSteps T'"
proof (induction T k index a rule: searchLoop.induct)
  case (1 T sfx index attempts)
  from "1.prems" show ?case
    apply (subst (asm) searchLoop.simps)
    apply (auto split: if_splits option.splits dest!: "1.IH")
    done
qed

lemma searchHash_frame:
  assumes "searchHash T k = Inr (ws, T')"
  shows "size_ht T' = size_ht T" "table T' = table T" "count T' = count T"
        "probeSteps T \<le> probeSteps T'"
proof -
  from assms have *: "T' = T\<lparr>probeSteps := probeSteps T'\<rparr> \<and> probeSteps T \<le> probeSteps T'"
    unfolding searchHash_def by (rule searchLoop_frame)
  then have "size_ht T' = size_ht (T\<lparr>probeSteps := probeSteps T'\<rparr>)"
     "table T' = table (T\<lparr>probeSteps := probeSteps T'\<rparr>)"
     "count T' = count (T\<lparr>probeSteps := probeSteps T'\<rparr>)" by simp_all
  then show "size_ht T' = size_ht T" "table T' = table T" "count T' = count T" by simp_all
  show "probeSteps T \<le> probeSteps T'" using * by simp
qed

lemma probeInv_wellFormed: "probeInv T \<Longrightarrow> wellFormed T"
  by (simp add: probeInv_def)

lemma wellFormed_roundtrip:
  assumes "wellFormed T" "insertHash T k x = Inr (True, T')"
  shows "\<exists>ws T''. searchHash T' k = Inr (ws, T'') \<and> x \<in> set ws"
proof -
  let ?h = "computeHash k (size_ht T)"
  from insertHash_spec[OF assms(1), of k x] assms(2)
  obtain d where d: "d < size_ht T" "blocked T k ?h d" "placed T k x ((?h + d) mod size_ht T) T'"
    by auto
  have sz: "size_ht T' = size_ht T" using d(3) by (rule placed_frame)
  have wf': "wellFormed T'" using d(3) assms(1) by (rule placed_wf)
  have bl: "blocked T' k ?h d" using d(3) d(2) by (rule placed_blocked)
  from placed_entry[OF d(3) assms(1)] obtain e where
    e: "table T' ! ((?h + d) mod size_ht T) = Some e" "suffix e = k" "x \<in> set (words e)" by blast
  have "searchLoop T' k ?h 0 = Inr (words e, T'\<lparr>probeSteps := probeSteps T' + (d - 0)\<rparr>)"
    using searchLoop_found[of T' 0 d k ?h e ?h] wf' d(1) bl e(1,2) sz computeHash_mod[of k "size_ht T"]
    by simp
  then show ?thesis using e(3) sz by (auto simp: searchHash_def)
qed

section \<open>Claims about the hash table\<close>

text \<open>
  Claim C6. Insert/search round trip: in every table state reached from \<open>create\<close> by
  \<open>insertHash\<close> calls, when \<open>insertHash\<close> of a key \<open>k\<close> and a word \<open>x\<close> succeeds,
  \<open>searchHash\<close> of \<open>k\<close> on the resulting table returns a list that contains \<open>x\<close>.
\<close>

theorem insert_search_roundtrip:
  assumes "insertMany (create n) ops = Inr T" "insertHash T k x = Inr (True, T')"
  shows "\<exists>ws T''. searchHash T' k = Inr (ws, T'') \<and> x \<in> set ws"
proof -
  have "probeInv T" using probeInv_create assms(1) by (rule probeInv_insertMany)
  then have "wellFormed T" by (rule probeInv_wellFormed)
  then show ?thesis using assms(2) by (rule wellFormed_roundtrip)
qed

theorem insert_search_roundtrip_witness:
  "insertMany (create 2) [(''a'', ''x'')] =
     Inr \<lparr>size_ht = 2, table = [None, Some \<lparr>suffix = ''a'', words = [''x'']\<rparr>],
          count = 1, probeSteps = 0\<rparr>
   \<and> insertHash \<lparr>size_ht = 2, table = [None, Some \<lparr>suffix = ''a'', words = [''x'']\<rparr>],
                  count = 1, probeSteps = 0\<rparr> ''c'' ''y'' =
     Inr (True, \<lparr>size_ht = 2,
                 table = [Some \<lparr>suffix = ''c'', words = [''y'']\<rparr>,
                          Some \<lparr>suffix = ''a'', words = [''x'']\<rparr>],
                 count = 2, probeSteps = 0\<rparr>)
   \<and> (\<exists>ws T''. searchHash \<lparr>size_ht = 2,
                   table = [Some \<lparr>suffix = ''c'', words = [''y'']\<rparr>,
                            Some \<lparr>suffix = ''a'', words = [''x'']\<rparr>],
                   count = 2, probeSteps = 0\<rparr> ''c'' = Inr (ws, T'') \<and> ''y'' \<in> set ws)"
proof -
  have a: "insertMany (create 2) [(''a'', ''x'')] =
     Inr \<lparr>size_ht = 2, table = [None, Some \<lparr>suffix = ''a'', words = [''x'']\<rparr>],
          count = 1, probeSteps = 0\<rparr>"
    by code_simp
  have b: "insertHash \<lparr>size_ht = 2, table = [None, Some \<lparr>suffix = ''a'', words = [''x'']\<rparr>],
                  count = 1, probeSteps = 0\<rparr> ''c'' ''y'' =
     Inr (True, \<lparr>size_ht = 2,
                 table = [Some \<lparr>suffix = ''c'', words = [''y'']\<rparr>,
                          Some \<lparr>suffix = ''a'', words = [''x'']\<rparr>],
                 count = 2, probeSteps = 0\<rparr>)"
    by code_simp
  from insert_search_roundtrip [OF a b] a b show ?thesis by blast
qed

text \<open>
  Claim C7. In every table state reached from \<open>create\<close> by \<open>insertHash\<close> calls, at most
  one bucket is bound to a given key: two buckets that hold entries with the same suffix
  key are the same bucket.
\<close>

theorem reachable_key_unique:
  assumes "insertMany (create n) ops = Inr T" "i < length (table T)" "j < length (table T)"
    "table T ! i = Some e1" "table T ! j = Some e2" "suffix e1 = suffix e2"
  shows "i = j"
proof -
  have inv: "probeInv T" using probeInv_create assms(1) by (rule probeInv_insertMany)
  then have "length (table T) = size_ht T" by (simp add: probeInv_def wellFormed_def)
  then show ?thesis
    using probeInv_unique[OF inv, of i j "suffix e1"] assms(2-6) by (simp add: keyAt_def)
qed

theorem reachable_key_unique_witness:
  "insertMany (create 2) [(''a'', ''x''), (''c'', ''y'')] =
     Inr \<lparr>size_ht = 2,
          table = [Some \<lparr>suffix = ''c'', words = [''y'']\<rparr>,
                   Some \<lparr>suffix = ''a'', words = [''x'']\<rparr>],
          count = 2, probeSteps = 0\<rparr>
   \<and> [Some \<lparr>suffix = ''c'', words = [''y'']\<rparr>, Some \<lparr>suffix = ''a'', words = [''x'']\<rparr>] ! 1
       = Some \<lparr>suffix = ''a'', words = [''x'']\<rparr>
   \<and> (1::nat) = 1"
proof -
  have a: "insertMany (create 2) [(''a'', ''x''), (''c'', ''y'')] =
     Inr \<lparr>size_ht = 2,
          table = [Some \<lparr>suffix = ''c'', words = [''y'']\<rparr>,
                   Some \<lparr>suffix = ''a'', words = [''x'']\<rparr>],
          count = 2, probeSteps = 0\<rparr>"
    by code_simp
  from reachable_key_unique [OF a, of 1 1 "\<lparr>suffix = ''a'', words = [''x'']\<rparr>"
                               "\<lparr>suffix = ''a'', words = [''x'']\<rparr>"] a
  show ?thesis by simp
qed

section \<open>Claims about the scorer\<close>

declare matchLoop.simps [simp del]

lemma matchLoop_ge: "m \<le> matchLoop w1 w2 i j m"
proof (induction w1 w2 i j m rule: matchLoop.induct)
  case (1 w1 w2 i j m)
  show ?case
  proof (cases "i \<ge> 0 \<and> j \<ge> 0 \<and> w1 ! nat i = w2 ! nat j")
    case True
    then have "m + 1 \<le> matchLoop w1 w2 (i - 1) (j - 1) (m + 1)" using "1.IH" by simp
    then show ?thesis using True by (subst matchLoop.simps) simp
  next
    case False
    then show ?thesis by (subst matchLoop.simps) auto
  qed
qed

lemma matchLoop_sym: "matchLoop w1 w2 i j m = matchLoop w2 w1 j i m"
proof (induction w1 w2 i j m rule: matchLoop.induct)
  case (1 w1 w2 i j m)
  show ?case
  proof (cases "i \<ge> 0 \<and> j \<ge> 0 \<and> w1 ! nat i = w2 ! nat j")
    case True
    then have "matchLoop w1 w2 (i - 1) (j - 1) (m + 1) = matchLoop w2 w1 (j - 1) (i - 1) (m + 1)"
      using "1.IH" by simp
    then show ?thesis using True
      by (subst matchLoop.simps, subst (2) matchLoop.simps) simp
  next
    case False
    then show ?thesis by (subst matchLoop.simps, subst (2) matchLoop.simps) auto
  qed
qed

lemma scoreRhyme_bounds: "0 \<le> scoreRhyme w1 w2 \<and> scoreRhyme w1 w2 \<le> 100"
proof -
  define m where "m = matchLoop w1 w2 (int (length w1) - 1) (int (length w2) - 1) 0"
  have m0: "0 \<le> m" unfolding m_def by (rule matchLoop_ge)
  have "0 \<le> (if m * 15 > 60 then 60 else m * 15) \<and> (if m * 15 > 60 then 60 else m * 15) \<le> 60"
    using m0 by simp
  then show ?thesis
    unfolding scoreRhyme_def Let_def m_def[symmetric] by (simp split: if_splits)
qed

lemma scoreRhyme_comm: "scoreRhyme w1 w2 = scoreRhyme w2 w1"
proof -
  have m: "matchLoop w1 w2 (int (length w1) - 1) (int (length w2) - 1) 0
      = matchLoop w2 w1 (int (length w2) - 1) (int (length w1) - 1) 0"
    by (rule matchLoop_sym)
  have a: "\<bar>int (length w1) - int (length w2)\<bar> = \<bar>int (length w2) - int (length w1)\<bar>"
    by simp
  have c: "(charAt w1 0 \<noteq> charAt w2 0) = (charAt w2 0 \<noteq> charAt w1 0)" by auto
  have e: "(w1 = w2) = (w2 = w1)" by auto
  show ?thesis unfolding scoreRhyme_def m a c e ..
qed

text \<open>
  Claim C8. For every pair of words \<open>scoreRhyme\<close> returns an integer between 0 and 100,
  a pair of words reaches 100 = 60 + 20 + 20, and two identical words score 0.
\<close>

theorem scoreRhyme_range:
  "0 \<le> scoreRhyme w1 w2 \<and> scoreRhyme w1 w2 \<le> 100 \<and> scoreRhyme w1 w1 = 0
   \<and> scoreRhyme ''light'' ''night'' = 60 + 20 + 20"
proof -
  have "scoreRhyme ''light'' ''night'' = 60 + 20 + 20" by code_simp
  moreover have "scoreRhyme w1 w1 = 0" by (simp add: scoreRhyme_def)
  ultimately show ?thesis using scoreRhyme_bounds[of w1 w2] by simp
qed

text \<open>
  Claim C9. \<open>scoreRhyme\<close> is symmetric: two different words score the same in either
  order.
\<close>

theorem scoreRhyme_symmetric: "w1 \<noteq> w2 \<Longrightarrow> scoreRhyme w1 w2 = scoreRhyme w2 w1"
  by (rule scoreRhyme_comm)

theorem scoreRhyme_symmetric_witness:
  "''cat'' \<noteq> ''chat'' \<and> scoreRhyme ''cat'' ''chat'' = scoreRhyme ''chat'' ''cat''
   \<and> scoreRhyme ''cat'' ''chat'' = 45"
proof -
  have n: "''cat'' \<noteq> ''chat''" by simp
  have v: "scoreRhyme ''cat'' ''chat'' = 45" by code_simp
  from scoreRhyme_symmetric [OF n] n v show ?thesis by simp
qed

section \<open>Claim about the phonetic key\<close>

text \<open>
  Claim C5 says that the phonetic key of "knight" is "nVt". The rule for \<open>kn\<close> writes a
  capital \<open>N\<close>, which the scan copies as it is, so the key is not "nVt".
\<close>

theorem knight_not_nVt_counterexample: "computePhoneticKey ''knight'' \<noteq> ''nVt''"
  by code_simp

text \<open>
  Claim C5, amended. The phonetic key of "knight" is "NVt": \<open>gh\<close> is removed, \<open>kn\<close>
  becomes the capital \<open>N\<close> that every rewrite rule uses for its output, the vowel becomes
  \<open>V\<close>, and \<open>t\<close> is copied.
\<close>

theorem knight_phonetic_key: "computePhoneticKey ''knight'' = ''NVt''"
  by code_simp

section \<open>Claim about the alliteration lookup\<close>

text \<open>
  Claim C10. When the first character of the lower-cased letter is not in the range
  from \<open>a\<close> to \<open>z\<close>, \<open>findAlliteration\<close> returns the empty list and does not read the
  alliteration array at any index, whatever the array and the result cap are.
\<close>

theorem findAlliteration_not_a_letter:
  assumes "charAt (toLowerCase letter) 0 = Some c"
    and "of_char c < (of_char (CHR ''a'') :: nat) \<or> (of_char (CHR ''z'') :: nat) < of_char c"
  shows "findAlliteration AlliterationTable letter maxResults = []
         \<and> snd (findAlliterationReads AlliterationTable letter maxResults) = []"
  using assms by (auto simp: findAlliteration_def findAlliterationReads_def Let_def)

theorem findAlliteration_not_a_letter_witness:
  "charAt (toLowerCase ''7up'') 0 = Some (CHR ''7'')
   \<and> ((of_char (CHR ''7'') :: nat) < of_char (CHR ''a'') \<or> (of_char (CHR ''z'') :: nat) < of_char (CHR ''7''))
   \<and> findAlliteration (replicate 26 [''word'']) ''7up'' 5 = []
   \<and> snd (findAlliterationReads (replicate 26 [''word'']) ''7up'' 5) = []"
proof -
  have a: "charAt (toLowerCase ''7up'') 0 = Some (CHR ''7'')" by code_simp
  have b: "(of_char (CHR ''7'') :: nat) < of_char (CHR ''a'') \<or> (of_char (CHR ''z'') :: nat) < of_char (CHR ''7'')"
    by simp
  from findAlliteration_not_a_letter [OF a b, of "replicate 26 [''word'']" 5] a b
  show ?thesis by blast
qed

section \<open>Claims about the query\<close>

lemma exampleTables_built:
  "buildLoop (buildStart\<lparr>rhymeTable_b := create 7, phoneticTable_b := create 7\<rparr>) 3
     [''light'', ''night'', ''fight'', ''sing'']
   = Inr \<lparr>rhymeTable_b = rhymeTable exampleTables, phoneticTable_b = phoneticTable exampleTables,
          alliterationTable_b = alliterationTable exampleTables, wordCount_b = 4,
          insertResults = [True, True, True, True, True, True, True, True]\<rparr>"
  by code_simp

lemma searchLoop_total:
  assumes "wellFormed T" "attempts < size_ht T \<longrightarrow> index < size_ht T"
  shows "\<exists>ws T'. searchLoop T k index attempts = Inr (ws, T')"
  using assms
proof (induction T k index attempts rule: searchLoop.induct)
  case (1 T sfx index attempts)
  show ?case
  proof (cases "attempts < size_ht T")
    case False
    then show ?thesis by (subst searchLoop.simps) simp
  next
    case lt: True
    then have idx: "index < length (table T)" using 1 by (simp add: wellFormed_def)
    show ?thesis
    proof (cases "table T ! index")
      case None
      then show ?thesis using lt idx by (subst searchLoop.simps) simp
    next
      case (Some e)
      show ?thesis
      proof (cases "suffix e = sfx")
        case True
        then show ?thesis using Some lt idx by (subst searchLoop.simps) simp
      next
        case False
        have "\<exists>ws T'. searchLoop (T\<lparr>probeSteps := probeSteps T + 1\<rparr>) sfx
                 ((index + 1) mod size_ht T) (attempts + 1) = Inr (ws, T')"
          using "1.IH"[OF lt idx Some False] "1.prems"(1) lt by simp
        then show ?thesis using Some False lt idx by (subst searchLoop.simps) simp
      qed
    qed
  qed
qed

lemma searchHash_total:
  assumes "wellFormed T"
  shows "\<exists>ws T'. searchHash T k = Inr (ws, T')"
  unfolding searchHash_def using assms
  by (rule searchLoop_total) (simp add: computeHash_lt)

lemma length_rankCandidates: "length (rankCandidates w cs m) \<le> nat m"
  by (simp add: rankCandidates_def Let_def)

lemma length_mergePhonetic: "length (mergePhonetic rs ps) \<le> length rs + length ps"
proof (induction ps arbitrary: rs)
  case Nil
  then show ?case by simp
next
  case (Cons p ps)
  have "length (mergePhonetic (if p \<in> set rs then rs else rs @ [p]) ps)
        \<le> length (if p \<in> set rs then rs else rs @ [p]) + length ps"
    by (rule Cons.IH)
  then show ?case by (simp split: if_splits)
qed

lemma findRhymes_length:
  "findRhymes T w L m = Inr (rs, T') \<Longrightarrow> length rs \<le> nat m"
  by (auto simp: findRhymes_def length_rankCandidates split: sum.splits)

lemma phoneticSearch_length:
  "phoneticSearch T w L m = Inr (rs, T') \<Longrightarrow> length rs \<le> nat m"
  by (auto simp: phoneticSearch_def length_rankCandidates split: sum.splits)

lemma findRhymes_total:
  "wellFormed T \<Longrightarrow> \<exists>rs T'. findRhymes T w L m = Inr (rs, T')"
  using searchHash_total[of T "extractSuffix w L"] by (auto simp: findRhymes_def)

lemma phoneticSearch_total:
  "wellFormed T \<Longrightarrow> \<exists>rs T'. phoneticSearch T w L m = Inr (rs, T')"
  using searchHash_total[of T "extractSuffix (computePhoneticKey w) L"]
  by (auto simp: phoneticSearch_def)

lemma query_rhymes_bound:
  assumes "query tables inputWord suffixLength = Inr run"
  shows "length (rhymes (result run)) \<le> 10"
    and "phoneticSearchCalled run \<Longrightarrow> length (rhymes (result run)) \<le> 9"
proof -
  from assms obtain rs rt where f: "findRhymes (rhymeTable tables) inputWord suffixLength 10 = Inr (rs, rt)"
    by (auto simp: query_def split: sum.splits)
  have l: "length rs \<le> 10" using findRhymes_length[OF f] by simp
  show "length (rhymes (result run)) \<le> 10"
  proof (cases "length rs < 3")
    case True
    with assms f obtain ph pt where
      p: "phoneticSearch (phoneticTable tables) inputWord suffixLength 7 = Inr (ph, pt)"
      and r: "rhymes (result run) = mergePhonetic rs ph"
      by (auto simp: query_def Let_def split: sum.splits option.splits)
    have "length ph \<le> 7" using phoneticSearch_length[OF p] by simp
    then show ?thesis using length_mergePhonetic[of rs ph] True r by simp
  next
    case False
    with assms f have "rhymes (result run) = rs"
      by (auto simp: query_def Let_def split: sum.splits option.splits)
    then show ?thesis using l by simp
  qed
  show "length (rhymes (result run)) \<le> 9" if c: "phoneticSearchCalled run"
  proof -
    have lt: "length rs < 3" using assms f c
      by (auto simp: query_def Let_def split: sum.splits option.splits if_splits)
    with assms f obtain ph pt where
      p: "phoneticSearch (phoneticTable tables) inputWord suffixLength 7 = Inr (ph, pt)"
      and r: "rhymes (result run) = mergePhonetic rs ph"
      by (auto simp: query_def Let_def split: sum.splits option.splits)
    have "length ph \<le> 7" using phoneticSearch_length[OF p] by simp
    then show ?thesis using length_mergePhonetic[of rs ph] lt r by simp
  qed
qed

text \<open>
  Claim C3 says that for some tables, input word and suffix length the rhyme list that
  \<open>query\<close> returns is longer than 10. No call of \<open>query\<close> returns such a list.
\<close>

theorem rhymes_exceed_ten_counterexample:
  "\<not> (\<exists>tables inputWord suffixLength run.
        query tables inputWord suffixLength = Inr run \<and> 10 < length (rhymes (result run)))"
  using query_rhymes_bound(1) by fastforce

text \<open>
  Claim C3, amended. The rhyme list that \<open>query\<close> returns has at most 10 entries, and at
  most 9 when the phonetic fallback ran: the fallback runs only below 3 orthographic
  rhymes and appends at most 7 words.
\<close>

theorem query_rhymes_at_most_ten:
  assumes "query tables inputWord suffixLength = Inr run"
  shows "length (rhymes (result run)) \<le> 10
         \<and> (phoneticSearchCalled run \<longrightarrow> length (rhymes (result run)) \<le> 9)"
  using query_rhymes_bound[OF assms] by simp

theorem query_rhymes_at_most_ten_witness:
  "query exampleTables ''light'' 3 =
     Inr \<lparr>result = \<lparr>rhymes = [''night'', ''fight''], syllables = 1, alliterations = [''light'']\<rparr>,
          tablesAfter = exampleTables, phoneticSearchCalled = True\<rparr>
   \<and> length [''night'', ''fight''] \<le> 9"
proof -
  have q: "query exampleTables ''light'' 3 =
     Inr \<lparr>result = \<lparr>rhymes = [''night'', ''fight''], syllables = 1, alliterations = [''light'']\<rparr>,
          tablesAfter = exampleTables, phoneticSearchCalled = True\<rparr>"
    by code_simp
  from query_rhymes_at_most_ten [OF q] q show ?thesis by simp
qed

text \<open>
  Claim C4. On well-formed tables and a non-empty input word, \<open>query\<close> calls
  \<open>phoneticSearch\<close> exactly when fewer than 3 orthographic rhymes come back from
  \<open>findRhymes\<close>: with exactly 2 it searches the phonetic table and merges what it finds,
  with exactly 3 it leaves the phonetic table alone and returns the orthographic rhymes.
\<close>

theorem phonetic_fallback_trigger:
  assumes "wellFormed (rhymeTable tables)" "wellFormed (phoneticTable tables)" "inputWord \<noteq> []"
  shows "\<exists>rs rt run.
           findRhymes (rhymeTable tables) inputWord suffixLength 10 = Inr (rs, rt)
         \<and> query tables inputWord suffixLength = Inr run
         \<and> (phoneticSearchCalled run \<longleftrightarrow> length rs < 3)
         \<and> (length rs = 2 \<longrightarrow> phoneticSearchCalled run)
         \<and> (length rs = 3 \<longrightarrow> \<not> phoneticSearchCalled run)
         \<and> (phoneticSearchCalled run \<longrightarrow>
              (\<exists>ph pt. phoneticSearch (phoneticTable tables) inputWord suffixLength 7 = Inr (ph, pt)
                     \<and> phoneticTable (tablesAfter run) = pt
                     \<and> rhymes (result run) = mergePhonetic rs ph))
         \<and> (\<not> phoneticSearchCalled run \<longrightarrow>
              phoneticTable (tablesAfter run) = phoneticTable tables \<and> rhymes (result run) = rs)"
proof -
  from findRhymes_total[OF assms(1)] obtain rs rt where
    f: "findRhymes (rhymeTable tables) inputWord suffixLength 10 = Inr (rs, rt)" by blast
  from phoneticSearch_total[OF assms(2)] obtain ph pt where
    p: "phoneticSearch (phoneticTable tables) inputWord suffixLength 7 = Inr (ph, pt)" by blast
  obtain c cs where w: "inputWord = c # cs" using assms(3) by (cases inputWord) auto
  show ?thesis
  proof (cases "length rs < 3")
    case True
    then show ?thesis using f p w by (simp add: query_def Let_def charAt_def)
  next
    case False
    then show ?thesis using f p w by (simp add: query_def Let_def charAt_def)
  qed
qed

theorem phonetic_fallback_trigger_witness:
  "wellFormed (rhymeTable exampleTables) \<and> wellFormed (phoneticTable exampleTables)
   \<and> findRhymes (rhymeTable exampleTables) ''Light'' 3 10 = Inr ([''light'', ''night'', ''fight''], rhymeTable exampleTables)
   \<and> phoneticSearchCalled (projr (query exampleTables ''Light'' 3)) = False
   \<and> findRhymes (rhymeTable exampleTables) ''fight'' 3 10 = Inr ([''light'', ''night''], rhymeTable exampleTables)
   \<and> phoneticSearchCalled (projr (query exampleTables ''fight'' 3)) = True"
proof -
  have a: "wellFormed (rhymeTable exampleTables)" by code_simp
  have b: "wellFormed (phoneticTable exampleTables)" by code_simp
  have c: "''Light'' \<noteq> []" "''fight'' \<noteq> []" by simp_all
  have f3: "findRhymes (rhymeTable exampleTables) ''Light'' 3 10 = Inr ([''light'', ''night'', ''fight''], rhymeTable exampleTables)"
    by code_simp
  have f2: "findRhymes (rhymeTable exampleTables) ''fight'' 3 10 = Inr ([''light'', ''night''], rhymeTable exampleTables)"
    by code_simp
  from phonetic_fallback_trigger [OF a b c(1), of 3] f3
  have "phoneticSearchCalled (projr (query exampleTables ''Light'' 3)) = False" by auto
  moreover from phonetic_fallback_trigger [OF a b c(2), of 3] f2
  have "phoneticSearchCalled (projr (query exampleTables ''fight'' 3)) = True" by auto
  ultimately show ?thesis using a b f3 f2 by simp
qed

section \<open>Claim about the build\<close>

lemma keysOf_card:
  "finite (keysOf T) \<and> card (keysOf T) \<le> size_ht T"
proof -
  have sub: "keysOf T \<subseteq> (\<lambda>i. the (keyAt T i)) ` {..<size_ht T}"
    by (force simp: keysOf_def)
  have fin: "finite ((\<lambda>i. the (keyAt T i)) ` {..<size_ht T})" by simp
  have "card (keysOf T) \<le> card ((\<lambda>i. the (keyAt T i)) ` {..<size_ht T})"
    using sub fin by (rule card_mono[rotated])
  also have "\<dots> \<le> card {..<size_ht T}" by (rule card_image_le) simp
  finally show ?thesis using sub fin by (auto intro: finite_subset)
qed

lemma placed_keysOf:
  assumes "placed T k w p T'" "wellFormed T"
  shows "keysOf T \<subseteq> keysOf T'" "k \<in> keysOf T'"
proof -
  have sz: "size_ht T' = size_ht T" using assms(1) by (rule placed_frame)
  show "keysOf T \<subseteq> keysOf T'"
    using placed_keyAt_old[OF assms(1)] sz by (fastforce simp: keysOf_def)
  from placed_entry[OF assms] obtain e where "table T' ! p = Some e" "suffix e = k" by blast
  moreover have "p < size_ht T" using assms(1) by (simp add: placed_def)
  ultimately show "k \<in> keysOf T'" using sz by (auto simp: keysOf_def keyAt_def)
qed

lemma insertHash_keysOf:
  assumes "wellFormed T"
  shows "\<exists>ok T'. insertHash T k w = Inr (ok, T') \<and> wellFormed T' \<and> size_ht T' = size_ht T
           \<and> keysOf T \<subseteq> keysOf T' \<and> (ok \<longrightarrow> k \<in> keysOf T') \<and> (\<not> ok \<longrightarrow> T' = T)"
proof -
  from insertHash_spec[OF assms, of k w]
  show ?thesis
  proof
    assume "insertHash T k w = Inr (False, T) \<and> blocked T k (computeHash k (size_ht T)) (size_ht T)"
    then show ?thesis using assms by auto
  next
    assume "\<exists>d T'. d < size_ht T \<and> blocked T k (computeHash k (size_ht T)) d
             \<and> placed T k w ((computeHash k (size_ht T) + d) mod size_ht T) T'
             \<and> insertHash T k w = Inr (True, T')"
    then obtain d T' where pl: "placed T k w ((computeHash k (size_ht T) + d) mod size_ht T) T'"
      and r: "insertHash T k w = Inr (True, T')" by blast
    show ?thesis
      using r placed_wf[OF pl assms] placed_frame(1)[OF pl] placed_keysOf[OF pl assms] by auto
  qed
qed

lemma letter_index:
  assumes "isLetter c"
  shows "0 \<le> int (of_char (lowerChar c)) - int (of_char (CHR ''a''))"
    and "nat (int (of_char (lowerChar c)) - int (of_char (CHR ''a''))) < 26"
  using assms by (auto simp: isLetter_def lowerChar_def Let_def)

lemma buildLoop_skip: "\<not> acceptedLine line \<Longrightarrow> buildLoop st L (line # rest) = buildLoop st L rest"
  by (auto simp: acceptedLine_def Let_def)

lemma buildLoop_accept:
  assumes "acceptedLine line" "buildInv st"
  shows "\<exists>ok1 ok2 rt pt at.
      insertHash (rhymeTable_b st) (extractSuffix (trim line) L) (trim line) = Inr (ok1, rt)
    \<and> wellFormed rt \<and> size_ht rt = size_ht (rhymeTable_b st)
    \<and> keysOf (rhymeTable_b st) \<subseteq> keysOf rt \<and> (ok1 \<longrightarrow> extractSuffix (trim line) L \<in> keysOf rt)
    \<and> wellFormed pt \<and> length at = 26
    \<and> buildLoop st L (line # rest) =
        buildLoop \<lparr>rhymeTable_b = rt, phoneticTable_b = pt, alliterationTable_b = at,
                   wordCount_b = wordCount_b st + 1,
                   insertResults = insertResults st @ [ok1, ok2]\<rparr> L rest"
proof -
  let ?w = "trim line"
  have wr: "wellFormed (rhymeTable_b st)" and wp: "wellFormed (phoneticTable_b st)"
    and la: "length (alliterationTable_b st) = 26" using assms(2) by (simp_all add: buildInv_def)
  from insertHash_keysOf[OF wr, of "extractSuffix ?w L" ?w] obtain ok1 rt where
    r: "insertHash (rhymeTable_b st) (extractSuffix ?w L) ?w = Inr (ok1, rt)" "wellFormed rt"
       "size_ht rt = size_ht (rhymeTable_b st)" "keysOf (rhymeTable_b st) \<subseteq> keysOf rt"
       "ok1 \<longrightarrow> extractSuffix ?w L \<in> keysOf rt" by blast
  from insertHash_keysOf[OF wp, of "extractSuffix (computePhoneticKey ?w) L" ?w] obtain ok2 pt where
    p: "insertHash (phoneticTable_b st) (extractSuffix (computePhoneticKey ?w) L) ?w = Inr (ok2, pt)"
       "wellFormed pt" by blast
  have ne: "?w \<noteq> []" and al: "list_all isLetter ?w" and ln: "line \<noteq> []"
    using assms(1) by (simp_all add: acceptedLine_def isAlphabetic_def)
  then have "isLetter (?w ! 0)" by (cases ?w) simp_all
  note li = letter_index[OF this]
  have fl: "toLowerCase [?w ! 0] ! 0 = lowerChar (?w ! 0)" by (simp add: toLowerCase_def)
  let ?i = "nat (int (of_char (lowerChar (?w ! 0))) - int (of_char (CHR ''a'')))"
  let ?at = "(alliterationTable_b st)[?i := alliterationTable_b st ! ?i @ [?w]]"
  have "buildLoop st L (line # rest) =
        buildLoop \<lparr>rhymeTable_b = rt, phoneticTable_b = pt, alliterationTable_b = ?at,
                   wordCount_b = wordCount_b st + 1,
                   insertResults = insertResults st @ [ok1, ok2]\<rparr> L rest"
    using assms(1) r(1) p(1) li la ln fl
    by (simp add: acceptedLine_def Let_def del: of_char_Char)
  moreover have "length ?at = 26" using la by simp
  ultimately show ?thesis using r p(2) by blast
qed


declare buildLoop.simps(2) [simp del]

lemma buildLoop_spec:
  assumes "buildInv st"
  shows "\<exists>st'. buildLoop st L lines = Inr st' \<and> buildInv st'
      \<and> size_ht (rhymeTable_b st') = size_ht (rhymeTable_b st)
      \<and> wordCount_b st' = wordCount_b st + length (filter acceptedLine lines)
      \<and> length (insertResults st') = length (insertResults st) + 2 * length (filter acceptedLine lines)
      \<and> set (insertResults st) \<subseteq> set (insertResults st')
      \<and> keysOf (rhymeTable_b st) \<subseteq> keysOf (rhymeTable_b st')
      \<and> (False \<notin> set (insertResults st') \<longrightarrow>
           (\<lambda>l. extractSuffix (trim l) L) ` set (filter acceptedLine lines) \<subseteq> keysOf (rhymeTable_b st'))"
  using assms
proof (induction lines arbitrary: st)
  case Nil
  then show ?case by simp
next
  case (Cons line rest)
  show ?case
  proof (cases "acceptedLine line")
    case False
    then show ?thesis using Cons.IH[OF Cons.prems] by (simp add: buildLoop_skip)
  next
    case True
    from buildLoop_accept[OF True Cons.prems, of L rest] obtain ok1 ok2 rt pt at where
      a: "wellFormed rt" "size_ht rt = size_ht (rhymeTable_b st)"
         "keysOf (rhymeTable_b st) \<subseteq> keysOf rt" "ok1 \<longrightarrow> extractSuffix (trim line) L \<in> keysOf rt"
         "wellFormed pt" "length at = 26"
      and step: "buildLoop st L (line # rest) =
        buildLoop \<lparr>rhymeTable_b = rt, phoneticTable_b = pt, alliterationTable_b = at,
                   wordCount_b = wordCount_b st + 1,
                   insertResults = insertResults st @ [ok1, ok2]\<rparr> L rest" by blast
    let ?st1 = "\<lparr>rhymeTable_b = rt, phoneticTable_b = pt, alliterationTable_b = at,
                   wordCount_b = wordCount_b st + 1,
                   insertResults = insertResults st @ [ok1, ok2]\<rparr>"
    have inv1: "buildInv ?st1" using a by (simp add: buildInv_def)
    from Cons.IH[OF inv1] obtain st' where
      r: "buildLoop ?st1 L rest = Inr st'" "buildInv st'"
         "size_ht (rhymeTable_b st') = size_ht rt"
         "wordCount_b st' = wordCount_b st + 1 + length (filter acceptedLine rest)"
         "length (insertResults st') = length (insertResults st) + 2 + 2 * length (filter acceptedLine rest)"
         "set (insertResults st @ [ok1, ok2]) \<subseteq> set (insertResults st')"
         "keysOf rt \<subseteq> keysOf (rhymeTable_b st')"
         "False \<notin> set (insertResults st') \<longrightarrow>
           (\<lambda>l. extractSuffix (trim l) L) ` set (filter acceptedLine rest) \<subseteq> keysOf (rhymeTable_b st')"
      by auto
    have k: "False \<notin> set (insertResults st') \<longrightarrow> extractSuffix (trim line) L \<in> keysOf (rhymeTable_b st')"
    proof
      assume "False \<notin> set (insertResults st')"
      then have "ok1" using r(6) by (cases ok1) auto
      then show "extractSuffix (trim line) L \<in> keysOf (rhymeTable_b st')" using a(4) r(7) by blast
    qed
    have "buildLoop st L (line # rest) = Inr st'" using step r(1) by simp
    moreover have "size_ht (rhymeTable_b st') = size_ht (rhymeTable_b st)" using r(3) a(2) by simp
    moreover have "wordCount_b st' = wordCount_b st + length (filter acceptedLine (line # rest))"
      using r(4) True by simp
    moreover have "length (insertResults st') = length (insertResults st) + 2 * length (filter acceptedLine (line # rest))"
      using r(5) True by simp
    moreover have "set (insertResults st) \<subseteq> set (insertResults st')" using r(6) by auto
    moreover have "keysOf (rhymeTable_b st) \<subseteq> keysOf (rhymeTable_b st')" using a(3) r(7) by blast
    moreover have "False \<notin> set (insertResults st') \<longrightarrow>
           (\<lambda>l. extractSuffix (trim l) L) ` set (filter acceptedLine (line # rest)) \<subseteq> keysOf (rhymeTable_b st')"
      using k r(8) True by auto
    ultimately show ?thesis using r(2) by blast
  qed
qed

lemma buildInv_start: "buildInv buildStart"
  by (simp add: buildInv_def buildStart_def wellFormed_def create_def)

lemma buildRun_spec:
  "\<exists>st. buildRun text L = Inr st
      \<and> size_ht (rhymeTable_b st) = tableSize
      \<and> wordCount_b st = length (filter acceptedLine (splitLines text))
      \<and> length (insertResults st) = 2 * length (filter acceptedLine (splitLines text))
      \<and> (False \<notin> set (insertResults st) \<longrightarrow>
           (\<lambda>l. extractSuffix (trim l) L) ` set (filter acceptedLine (splitLines text))
             \<subseteq> keysOf (rhymeTable_b st))"
  using buildLoop_spec[OF buildInv_start, of L "splitLines text"]
  by (auto simp: buildRun_def buildStart_def create_def)

lemma built_tables_wellFormed:
  assumes "buildPoetryAssistant wordlistText suffixLength = Inr A"
  shows "wellFormed (rhymeTable A)" "wellFormed (phoneticTable A)"
proof -
  from buildLoop_spec[OF buildInv_start, of suffixLength "splitLines wordlistText"]
  obtain st where "buildRun wordlistText suffixLength = Inr st" "buildInv st"
    by (auto simp: buildRun_def)
  then show "wellFormed (rhymeTable A)" "wellFormed (phoneticTable A)"
    using assms by (auto simp: buildPoetryAssistant_def buildInv_def)
qed

lemma splitLines_line:
  "newline \<notin> set w \<Longrightarrow> splitLines (w @ newline # rest) = w # splitLines rest"
  by (induction w) auto

lemma splitLines_concat:
  "\<forall>w\<in>set ws. newline \<notin> set w \<Longrightarrow>
   splitLines (concat (map (\<lambda>w. w @ [newline]) ws)) = ws @ [[]]"
  by (induction ws) (simp_all add: splitLines_line)

lemma alphabet_char:
  assumes "c \<in> set alphabet"
  shows "isLetter c" "lowerChar c = c" "\<not> isWhiteSpace c" "c \<noteq> newline"
  using assms by (auto simp: alphabet_def isLetter_def lowerChar_def isWhiteSpace_def newline_def)

lemma trim_id:
  assumes "w \<noteq> []" "\<not> isWhiteSpace (hd w)" "\<not> isWhiteSpace (last w)"
  shows "trim w = w"
proof -
  have a: "dropWhile isWhiteSpace w = w" using assms(1,2) by (cases w) simp_all
  have "rev w \<noteq> []" "\<not> isWhiteSpace (hd (rev w))" using assms(1,3) by (simp_all add: hd_rev)
  then have "dropWhile isWhiteSpace (rev w) = rev w" by (cases "rev w") simp_all
  then show ?thesis using a by (simp add: trim_def)
qed

lemma threeLetterWord:
  assumes "w \<in> set threeLetterWords"
  shows "trim w = w" "acceptedLine w" "extractSuffix w 3 = w" "newline \<notin> set w"
proof -
  have len: "length w = 3" and sub: "set w \<subseteq> set alphabet"
    using assms by (simp_all add: threeLetterWords_def set_n_lists)
  then have ne: "w \<noteq> []" by auto
  then have "hd w \<in> set alphabet" "last w \<in> set alphabet" using sub by auto
  then show t: "trim w = w" using ne by (simp add: trim_id alphabet_char)
  have "list_all isLetter w" using sub by (auto simp: list_all_iff alphabet_char)
  then show "acceptedLine w" using ne t by (simp add: acceptedLine_def isAlphabetic_def)
  have "map lowerChar w = w" using sub by (auto intro!: map_idI simp: alphabet_char)
  then show "extractSuffix w 3 = w" using len by (simp add: extractSuffix_def toLowerCase_def)
  show "newline \<notin> set w" using sub alphabet_char(4) by blast
qed

lemma threeLetterWords_length: "length threeLetterWords = 17576"
proof -
  have "length alphabet = 26" by (simp add: alphabet_def)
  then have "length threeLetterWords = 26 ^ 3"
    by (simp only: threeLetterWords_def length_n_lists)
  then show ?thesis by simp
qed

lemma threeLetterWords_card: "card (set threeLetterWords) = 17576"
proof -
  have "distinct alphabet" by (simp add: alphabet_def)
  then have "distinct threeLetterWords" unfolding threeLetterWords_def by (rule distinct_n_lists)
  then have "card (set threeLetterWords) = length threeLetterWords" by (rule distinct_card)
  then show ?thesis by (simp add: threeLetterWords_length)
qed

lemma threeLetter_lines:
  "filter acceptedLine (splitLines threeLetterText) = threeLetterWords"
proof -
  have "splitLines threeLetterText = threeLetterWords @ [[]]"
    unfolding threeLetterText_def by (rule splitLines_concat) (simp add: threeLetterWord)
  moreover have "filter acceptedLine threeLetterWords = threeLetterWords"
    by (simp add: threeLetterWord)
  ultimately show ?thesis by (simp add: acceptedLine_def)
qed

lemma threeLetter_insert_fails: "False \<in> set (buildInsertResults threeLetterText 3)"
proof (rule ccontr)
  assume n: "False \<notin> set (buildInsertResults threeLetterText 3)"
  from buildRun_spec[of threeLetterText 3] obtain st where
    st: "buildRun threeLetterText 3 = Inr st" "size_ht (rhymeTable_b st) = tableSize"
      "False \<notin> set (insertResults st) \<longrightarrow>
           (\<lambda>l. extractSuffix (trim l) 3) ` set (filter acceptedLine (splitLines threeLetterText))
             \<subseteq> keysOf (rhymeTable_b st)" by blast
  have "False \<notin> set (insertResults st)" using n st(1) by (simp add: buildInsertResults_def)
  then have "(\<lambda>l. extractSuffix (trim l) 3) ` set threeLetterWords \<subseteq> keysOf (rhymeTable_b st)"
    using st(3) by (simp add: threeLetter_lines)
  moreover have "(\<lambda>l. extractSuffix (trim l) 3) ` set threeLetterWords = set threeLetterWords"
    by (auto simp: threeLetterWord image_iff)
  ultimately have "set threeLetterWords \<subseteq> keysOf (rhymeTable_b st)" by simp
  then have "card (set threeLetterWords) \<le> card (keysOf (rhymeTable_b st))"
    using keysOf_card[of "rhymeTable_b st"] by (simp add: card_mono)
  then have "17576 \<le> tableSize"
    using keysOf_card[of "rhymeTable_b st"] st(2) threeLetterWords_card by simp
  then show False by (simp add: tableSize_def)
qed

text \<open>
  Claim C2 says that the build reports a failed insert to its caller. On the list of all
  three-letter words with suffix length 3 an \<open>insertHash\<close> call of the build returns
  \<open>False\<close>, and the build still returns its usual result object, whose statistics count
  all 17576 words as loaded.
\<close>

theorem build_failure_not_surfaced_counterexample:
  "False \<in> set (buildInsertResults threeLetterText 3)
   \<and> \<not> isl (buildPoetryAssistant threeLetterText 3)
   \<and> wordCount (stats (projr (buildPoetryAssistant threeLetterText 3))) = 17576"
proof -
  from buildRun_spec[of threeLetterText 3] obtain st where
    st: "buildRun threeLetterText 3 = Inr st"
        "wordCount_b st = length (filter acceptedLine (splitLines threeLetterText))" by blast
  show ?thesis using threeLetterWords_length threeLetter_insert_fails st
    by (simp add: buildPoetryAssistant_def threeLetter_lines)
qed

text \<open>
  Claim C2, amended. \<open>buildPoetryAssistant\<close> drops the value that \<open>insertHash\<close> returns:
  for every word list and suffix length it returns its usual result object, it calls
  \<open>insertHash\<close> twice for every accepted line, and \<open>wordCount\<close> counts every accepted
  line, whether or not its inserts succeeded.
\<close>

theorem build_never_reports_failure:
  "\<exists>A. buildPoetryAssistant wordlistText suffixLength = Inr A
     \<and> wordCount (stats A) = length (filter acceptedLine (splitLines wordlistText))
     \<and> length (buildInsertResults wordlistText suffixLength)
         = 2 * length (filter acceptedLine (splitLines wordlistText))"
proof -
  from buildRun_spec[of wordlistText suffixLength] obtain st where
    st: "buildRun wordlistText suffixLength = Inr st"
        "wordCount_b st = length (filter acceptedLine (splitLines wordlistText))"
        "length (insertResults st) = 2 * length (filter acceptedLine (splitLines wordlistText))"
    by blast
  then show ?thesis by (simp add: buildPoetryAssistant_def buildInsertResults_def)
qed

section \<open>Claim about the tables after the build\<close>

lemma insertHash_create:
  assumes "0 < n"
  shows "insertHash (create n) k w =
     Inr (True, \<lparr>size_ht = n,
                 table = (replicate n None)[computeHash k n := Some \<lparr>suffix = k, words = [w]\<rparr>],
                 count = 1, probeSteps = 0\<rparr>)"
  unfolding insertHash_def
  using assms computeHash_lt[OF assms, of k]
  by (subst insertLoop.simps) (simp add: create_def)

lemma searchHash_small:
  "searchHash \<lparr>size_ht = 2, table = [None, Some \<lparr>suffix = ''a'', words = [''x'']\<rparr>],
                count = 1, probeSteps = 0\<rparr> ''c''
   = Inr ([], \<lparr>size_ht = 2, table = [None, Some \<lparr>suffix = ''a'', words = [''x'']\<rparr>],
                count = 1, probeSteps = 1\<rparr>)"
  by code_simp

lemma hash_a: "computeHash ''a'' tableSize = 97"
  by (simp add: computeHash_def tableSize_def)

lemma hash_cqn: "computeHash ''cqn'' tableSize = 97"
  by (simp add: computeHash_def tableSize_def)

lemma line_a:
  "splitLines (''a'' @ [newline]) = [''a'', []]" "trim ''a'' = ''a''" "acceptedLine ''a''"
  "extractSuffix ''a'' 3 = ''a''" "\<not> acceptedLine []" "extractSuffix ''cqn'' 3 = ''cqn''"
  by code_simp+

lemma build_a:
  "\<exists>A. buildPoetryAssistant (''a'' @ [newline]) 3 = Inr A \<and> rhymeTable A = tableA
       \<and> wellFormed (phoneticTable A)"
proof -
  from buildLoop_accept[OF line_a(3) buildInv_start, of 3 "[[]]"]
  obtain ok1 ok2 rt pt at where
    i: "insertHash (rhymeTable_b buildStart) (extractSuffix (trim ''a'') 3) (trim ''a'') = Inr (ok1, rt)"
    and p: "wellFormed pt"
    and s: "buildLoop buildStart 3 [''a'', []] =
        buildLoop \<lparr>rhymeTable_b = rt, phoneticTable_b = pt, alliterationTable_b = at,
                   wordCount_b = wordCount_b buildStart + 1,
                   insertResults = insertResults buildStart @ [ok1, ok2]\<rparr> 3 [[]]" by blast
  have "insertHash (create tableSize) ''a'' ''a'' = Inr (True, tableA)"
    using insertHash_create[of tableSize "''a''" "''a''"] hash_a
    by (simp add: tableA_def tableSize_def)
  then have rt: "rt = tableA" using i by (simp add: line_a buildStart_def)
  have "buildLoop buildStart 3 [''a'', []] =
         Inr \<lparr>rhymeTable_b = rt, phoneticTable_b = pt, alliterationTable_b = at,
                   wordCount_b = wordCount_b buildStart + 1,
                   insertResults = insertResults buildStart @ [ok1, ok2]\<rparr>"
    unfolding s using buildLoop_skip[OF line_a(5)] by simp
  then have "buildRun (''a'' @ [newline]) 3 =
         Inr \<lparr>rhymeTable_b = rt, phoneticTable_b = pt, alliterationTable_b = at,
                   wordCount_b = wordCount_b buildStart + 1,
                   insertResults = insertResults buildStart @ [ok1, ok2]\<rparr>"
    unfolding buildRun_def line_a(1) .
  then show ?thesis using rt p by (simp add: buildPoetryAssistant_def)
qed

lemma search_tableA:
  "searchHash tableA ''cqn'' = Inr ([], tableA\<lparr>probeSteps := 1\<rparr>)"
proof -
  have a: "table tableA ! 97 = Some \<lparr>suffix = ''a'', words = [''a'']\<rparr>"
    by (simp add: tableA_def tableSize_def)
  have b: "table tableA ! 98 = None"
    by (simp add: tableA_def tableSize_def)
  have l: "length (table tableA) = 6577" "size_ht tableA = 6577"
    by (simp_all add: tableA_def tableSize_def)
  have "searchLoop (tableA\<lparr>probeSteps := 1\<rparr>) ''cqn'' 98 1 = Inr ([], tableA\<lparr>probeSteps := 1\<rparr>)"
    using b l by (subst searchLoop.simps) simp
  then have "searchLoop tableA ''cqn'' 97 0 = Inr ([], tableA\<lparr>probeSteps := 1\<rparr>)"
    using a l by (subst searchLoop.simps) (simp add: tableA_def)
  then show ?thesis using hash_cqn l by (simp add: searchHash_def tableSize_def)
qed

text \<open>
  Claim C1 says that \<open>searchHash\<close>, and with it the whole query path, leaves the state of
  a built table exactly as it was, the probe-step counter included. \<open>searchHash\<close> keeps
  the size, the buckets and the count (lemma \<open>searchHash_frame\<close>) but adds one to
  \<open>probeSteps\<close> for every bucket it passes: on the tables built from the one-word list
  "a", the query of "cqn", whose suffix hashes to the bucket of "a", returns with the
  counter of the rhyme table at 1, where the build left 0.
\<close>

theorem query_changes_built_table:
  "\<exists>A run. buildPoetryAssistant (''a'' @ [newline]) 3 = Inr A
         \<and> query A ''cqn'' 3 = Inr run
         \<and> probeSteps (rhymeTable A) = 0
         \<and> probeSteps (rhymeTable (tablesAfter run)) = 1"
proof -
  from build_a obtain A where A: "buildPoetryAssistant (''a'' @ [newline]) 3 = Inr A"
    "rhymeTable A = tableA" "wellFormed (phoneticTable A)" by blast
  have f: "findRhymes (rhymeTable A) ''cqn'' 3 10 = Inr ([], tableA\<lparr>probeSteps := 1\<rparr>)"
    using search_tableA A(2) by (simp add: findRhymes_def line_a rankCandidates_def)
  from phoneticSearch_total[OF A(3), of "''cqn''" 3 7] obtain ph pt where
    p: "phoneticSearch (phoneticTable A) ''cqn'' 3 7 = Inr (ph, pt)" by blast
  have "query A ''cqn'' 3 =
      Inr \<lparr>result = \<lparr>rhymes = mergePhonetic [] ph, syllables = countSyllables ''cqn'',
                      alliterations = findAlliteration (alliterationTable A) [CHR ''c''] 5\<rparr>,
           tablesAfter = A\<lparr>rhymeTable := tableA\<lparr>probeSteps := 1\<rparr>, phoneticTable := pt\<rparr>,
           phoneticSearchCalled = True\<rparr>"
    using f p by (simp add: query_def charAt_def)
  then show ?thesis using A by (simp add: tableA_def)
qed

end
